theory Spec2Isabelle
  imports Complex_Main "HOL-Library.Sublist"
begin

section \<open>Text: code points, whitespace, lower case\<close>

text \<open>
  A Python \<open>str\<close> is a sequence of Unicode code points; it is modelled as a list of
  natural numbers, one per code point. \<open>str\<close> turns a literal of the source that has only
  characters below U+0100 into such a list; the other characters of the source's
  literals are written as their code points.

  \<open>is_space\<close> is \<open>str.isspace\<close> on one code point, the table that \<open>str.strip\<close> and the
  class \<open>\s\<close> of \<open>re\<close> share: U+0009 to U+000D, U+001C to U+0020, U+0085, U+00A0,
  U+1680, U+2000 to U+200A, U+2028, U+2029, U+202F, U+205F and U+3000.
\<close>

type_synonym pystr = "nat list"

definition str :: "string \<Rightarrow> pystr" where
  "str cs = map of_char cs"

definition is_space :: "nat \<Rightarrow> bool" where
  "is_space n \<longleftrightarrow>
     (9 \<le> n \<and> n \<le> 13) \<or> (28 \<le> n \<and> n \<le> 32) \<or> n = 0x85 \<or> n = 0xA0 \<or> n = 0x1680 \<or>
     (0x2000 \<le> n \<and> n \<le> 0x200A) \<or> n = 0x2028 \<or> n = 0x2029 \<or> n = 0x202F \<or>
     n = 0x205F \<or> n = 0x3000"

text \<open>
  \<open>str.lower()\<close> maps a text of ASCII characters letter by letter. For any other text it
  follows the Unicode database of the interpreter (with mappings to several code points
  and a rule for the capital sigma that looks at its neighbours); that part is not in
  the repository and is a parameter, \<open>unicode_lower\<close>, of everything that lower-cases.
\<close>

definition ascii_lower :: "nat \<Rightarrow> nat" where
  "ascii_lower n = (if 65 \<le> n \<and> n \<le> 90 then n + 32 else n)"

definition lower :: "(pystr \<Rightarrow> pystr) \<Rightarrow> pystr \<Rightarrow> pystr" where
  \<comment> \<open>\<open>s.lower()\<close>\<close>
  "lower unicode_lower s =
     (if list_all (\<lambda>n. n < 128) s then map ascii_lower s else unicode_lower s)"

section \<open>The host allow-list\<close>

definition ALLOWED_HOSTS :: "pystr list" where
  "ALLOWED_HOSTS =
     [str ''youtube.com'', str ''youtu.be'', str ''tiktok.com'', str ''facebook.com'',
      str ''fb.watch'']"

definition supports_site :: "(pystr \<Rightarrow> pystr) \<Rightarrow> pystr \<Rightarrow> bool" where
  \<comment> \<open>\<open>any(host in url.lower() for host in ALLOWED_HOSTS)\<close>; Python's \<open>in\<close> on strings is
      the contiguous-substring test \<^const>\<open>sublist\<close>\<close>
  "supports_site unicode_lower url =
     list_ex (\<lambda>host. sublist host (lower unicode_lower url)) ALLOWED_HOSTS"

section \<open>URL extraction\<close>

text \<open>
  The regular expression \<open>(https?://[^\s]+)\<close> is kept as data, a list of quantified
  atoms, and run by a backtracking matcher with the priorities of Python's \<open>re\<close>: an
  optional atom is tried present before absent, a repeated atom takes one more
  character before it lets the rest of the pattern go on.

  A literal of a pattern is a character below U+0100. Under \<open>re.IGNORECASE\<close> it matches
  the code points of \<open>ignorecase_variants\<close>: itself, its lower-case and upper-case
  partners, and the code points that \<open>re\<close> adds to them, among which the dotted and
  dotless i (U+0130, U+0131) for \<open>i\<close>, the Kelvin sign (U+212A) for \<open>k\<close> and the long s
  (U+017F) for \<open>s\<close>.
\<close>

definition ignorecase_variants :: "char \<Rightarrow> nat list" where
  "ignorecase_variants c =
     (let n = (of_char c :: nat)
      in if n = 73 \<or> n = 105 then [73, 105, 0x130, 0x131]
         else if n = 75 \<or> n = 107 then [75, 107, 0x212A]
         else if n = 83 \<or> n = 115 then [83, 115, 0x17F]
         else if 65 \<le> n \<and> n \<le> 90 then [n, n + 32]
         else if 97 \<le> n \<and> n \<le> 122 then [n - 32, n]
         else if n = 0xB5 then [0xB5, 0x39C, 0x3BC]
         else if n = 0xC5 \<or> n = 0xE5 then [0xC5, 0xE5, 0x212B]
         else if n = 0xDF then [0xDF, 0x1E9E]
         else if n = 0xFF then [0xFF, 0x178]
         else if 0xC0 \<le> n \<and> n \<le> 0xDE \<and> n \<noteq> 0xD7 then [n, n + 32]
         else if 0xE0 \<le> n \<and> n \<le> 0xFE \<and> n \<noteq> 0xF7 then [n - 32, n]
         else [n])"

datatype atom = Chr char | NotSpace

datatype item = One atom | Opt atom | Plus atom

type_synonym regex = "item list \<times> bool"
  \<comment> \<open>the pattern and the flag \<open>re.IGNORECASE\<close>\<close>

fun atom_match :: "bool \<Rightarrow> atom \<Rightarrow> nat \<Rightarrow> bool" where
  "atom_match ic (Chr c) x = (if ic then x \<in> set (ignorecase_variants c) else x = of_char c)"
| "atom_match ic NotSpace x = (\<not> is_space x)"

fun re_match :: "bool \<Rightarrow> item list \<Rightarrow> pystr \<Rightarrow> nat option" where
  "re_match ic [] s = Some 0"
| "re_match ic (One a # r) [] = None"
| "re_match ic (One a # r) (x # xs) =
     (if atom_match ic a x then map_option Suc (re_match ic r xs) else None)"
| "re_match ic (Opt a # r) [] = re_match ic r []"
| "re_match ic (Opt a # r) (x # xs) =
     (case (if atom_match ic a x then map_option Suc (re_match ic r xs) else None) of
        Some n \<Rightarrow> Some n
      | None \<Rightarrow> re_match ic r (x # xs))"
| "re_match ic (Plus a # r) [] = None"
| "re_match ic (Plus a # r) (x # xs) =
     (if atom_match ic a x
      then (case re_match ic (Plus a # r) xs of
              Some n \<Rightarrow> Some (Suc n)
            | None \<Rightarrow> map_option Suc (re_match ic r xs))
      else None)"

fun re_search :: "regex \<Rightarrow> pystr \<Rightarrow> pystr option" where
  \<comment> \<open>\<open>pattern.search(s)\<close> followed by \<open>.group(1)\<close>, for a pattern that is one group:
      the match at the leftmost position that has one\<close>
  "re_search (p, ic) [] = map_option (\<lambda>n. []) (re_match ic p [])"
| "re_search (p, ic) (x # xs) =
     (case re_match ic p (x # xs) of
        Some n \<Rightarrow> Some (take n (x # xs))
      | None \<Rightarrow> re_search (p, ic) xs)"

definition URL_REGEX :: regex where
  "URL_REGEX =
     ([One (Chr CHR ''h''), One (Chr CHR ''t''), One (Chr CHR ''t''), One (Chr CHR ''p''),
       Opt (Chr CHR ''s''), One (Chr CHR '':''), One (Chr CHR ''/''), One (Chr CHR ''/''),
       Plus NotSpace], True)"

definition strip :: "pystr \<Rightarrow> pystr" where
  \<comment> \<open>\<open>str.strip()\<close>: leading and trailing whitespace removed\<close>
  "strip s = rev (dropWhile is_space (rev (dropWhile is_space s)))"

definition extract_url :: "pystr \<Rightarrow> pystr option" where
  "extract_url text =
     (if text = [] then None
      else case re_search URL_REGEX (strip text) of
             None \<Rightarrow> None
           | Some url \<Rightarrow> Some url)"

section \<open>The message handler\<close>

text \<open>
  \<open>handle_text\<close> talks to the chat platform, to the downloader and to the file system.
  Each such call is a step that is recorded as an \<open>event\<close> when it is made and that either
  returns or raises; what it does is read from an environment \<open>env\<close>. A computation is
  the list of events it has made and how it ended: \<open>Inl e\<close> when the exception \<open>e\<close>
  left it, \<open>Inr v\<close> when it returned \<open>v\<close>.

  \<open>exn\<close> stands for the instances of Python's class \<open>Exception\<close>, which is what both
  \<open>except Exception\<close> clauses catch; the constructor \<open>FileNotFoundError\<close> is kept apart
  because \<open>unlink(missing_ok=True)\<close> swallows it. Each carries its \<open>str(e)\<close>, which
  \<open>str_of\<close> reads.

  The pictographs of the source's literals are written as their code points.
\<close>

datatype exn = FileNotFoundError (str_of: pystr) | OtherException (str_of: pystr)

datatype event =
    ReplyText pystr
  | SendAction
  | Download pystr
  | GetSize pystr
  | ReplyVideo pystr pystr
  | ReplyDocument pystr pystr
  | StatusDelete
  | StatusEdit pystr
  | Glob
  | IsFile pystr
  | Stat pystr
  | Unlink pystr

type_synonym 'a io = "event list \<times> (exn + 'a)"

definition io_return :: "'a \<Rightarrow> 'a io" where
  "io_return v = ([], Inr v)"

definition io_call :: "event \<Rightarrow> exn + 'a \<Rightarrow> 'a io" where
  \<comment> \<open>one call to a collaborator: the event, and the outcome the environment gives\<close>
  "io_call ev outcome = ([ev], outcome)"

definition io_bind :: "'a io \<Rightarrow> ('a \<Rightarrow> 'b io) \<Rightarrow> 'b io" where
  \<comment> \<open>sequencing: an exception skips what follows\<close>
  "io_bind m f =
     (case m of
        (tr, Inl e) \<Rightarrow> (tr, Inl e)
      | (tr, Inr v) \<Rightarrow> (case f v of (tr', r) \<Rightarrow> (tr @ tr', r)))"

definition io_try :: "'a io \<Rightarrow> (exn \<Rightarrow> 'a io) \<Rightarrow> 'a io" where
  \<comment> \<open>\<open>try: m except Exception as e: h e\<close>\<close>
  "io_try m h =
     (case m of
        (tr, Inl e) \<Rightarrow> (case h e of (tr', r) \<Rightarrow> (tr @ tr', r))
      | (tr, Inr v) \<Rightarrow> (tr, Inr v))"

definition io_finally :: "'a io \<Rightarrow> unit io \<Rightarrow> 'a io" where
  \<comment> \<open>\<open>try: m finally: fin\<close>: \<open>fin\<close> always runs; the outcome is that of \<open>m\<close> unless
      \<open>fin\<close> raises\<close>
  "io_finally m fin =
     (case m of (tr, r) \<Rightarrow>
        (case fin of
           (tr', Inl e) \<Rightarrow> (tr @ tr', Inl e)
         | (tr', Inr _) \<Rightarrow> (tr @ tr', r)))"

subsection \<open>The download directory and the sweep\<close>

record entry =
  name :: pystr
  is_file :: "exn + bool"
  st_mtime :: "exn + real"
  os_unlink :: "exn + unit"

text \<open>
  An \<open>entry\<close> is one path \<open>p\<close> that \<open>DOWNLOAD_DIR.glob("*")\<close> yields, with what the file
  system answers for it during the sweep: \<open>p.is_file()\<close>, \<open>p.stat().st_mtime\<close> in
  seconds since the epoch, and the system call behind \<open>p.unlink\<close>. Times are real
  numbers of seconds. The source reads the event loop's clock anew for each regular file;
  the model reads it once for the sweep.
\<close>

definition unlink_missing_ok :: "exn + unit \<Rightarrow> exn + unit" where
  \<comment> \<open>\<open>Path.unlink(missing_ok=True)\<close>: a \<open>FileNotFoundError\<close> of the system call is
      ignored\<close>
  "unlink_missing_ok r =
     (case r of
        Inl (FileNotFoundError m) \<Rightarrow> Inr ()
      | Inl (OtherException m) \<Rightarrow> Inl (OtherException m)
      | Inr u \<Rightarrow> Inr u)"

fun sweep_loop :: "real \<Rightarrow> entry list \<Rightarrow> unit io" where
  \<comment> \<open>the \<open>for p in ...\<close> loop of the \<open>finally\<close> block; \<open>now\<close> is what
      \<open>asyncio.get_event_loop().time()\<close> reads\<close>
  "sweep_loop now [] = io_return ()"
| "sweep_loop now (p # ps) =
     io_bind (io_call (IsFile (name p)) (is_file p)) (\<lambda>regular.
       if \<not> regular then sweep_loop now ps
       else io_bind (io_call (Stat (name p)) (st_mtime p)) (\<lambda>mtime.
         if mtime < now - 60 * 60
         then io_bind (io_call (Unlink (name p)) (unlink_missing_ok (os_unlink p)))
                (\<lambda>_. sweep_loop now ps)
         else sweep_loop now ps))"

definition janitor_sweep :: "real \<Rightarrow> exn + entry list \<Rightarrow> unit io" where
  \<comment> \<open>the body of the \<open>finally\<close> block: the loop inside \<open>try: ... except Exception: pass\<close>\<close>
  "janitor_sweep now listing =
     io_try (io_bind (io_call Glob listing) (sweep_loop now)) (\<lambda>e. io_return ())"

subsection \<open>The handler\<close>

record env =
  reply_text :: "pystr \<Rightarrow> exn + unit"
  send_action :: "exn + unit"
  ytdlp_download :: "pystr \<Rightarrow> exn + (pystr \<times> (pystr \<times> pystr) list)"
  getsize :: "pystr \<Rightarrow> exn + nat"
  reply_video :: "pystr \<Rightarrow> pystr \<Rightarrow> exn + unit"
  reply_document :: "pystr \<Rightarrow> pystr \<Rightarrow> exn + unit"
  status_delete :: "exn + unit"
  status_edit_text :: "pystr \<Rightarrow> exn + unit"
  loop_time :: real
  glob :: "exn + entry list"
  unicode_lower :: "pystr \<Rightarrow> pystr"

text \<open>
  The fields of \<open>env\<close> are the outcomes of the handler's calls:
  \<^item> \<open>reply_text t\<close>: \<open>await update.message.reply_text(t)\<close>;
  \<^item> \<open>send_action\<close>: \<open>await update.message.chat.send_action(ChatAction.UPLOAD_VIDEO)\<close>;
  \<^item> \<open>ytdlp_download url\<close>: \<open>await asyncio.to_thread(ytdlp_download, url)\<close>, the path of
    the downloaded file and the metadata dictionary (its entries that are strings);
  \<^item> \<open>getsize p\<close>: \<open>os.path.getsize(p)\<close>;
  \<^item> \<open>reply_video p c\<close>: the statement
    \<open>with open(p, "rb") as f: await update.message.reply_video(video=f, caption=c)\<close>,
    and \<open>reply_document p c\<close> likewise with \<open>reply_document(document=f, caption=c)\<close>;
  \<^item> \<open>status_delete\<close> and \<open>status_edit_text t\<close>: \<open>await status.delete()\<close> and
    \<open>await status.edit_text(t)\<close> on the progress message;
  \<^item> \<open>loop_time\<close>: \<open>asyncio.get_event_loop().time()\<close>, the event loop's monotonic clock;
  \<^item> \<open>glob\<close>: the paths \<open>DOWNLOAD_DIR.glob("*")\<close> yields, in its order;
  \<^item> \<open>unicode_lower\<close>: the interpreter's \<open>str.lower\<close> on texts that are not pure ASCII.
\<close>

definition REJECTION_TEXT :: pystr where
  "REJECTION_TEXT =
     [0x274C] @ str '' Please send a valid TikTok, YouTube, or Facebook link.''"

definition PROGRESS_TEXT :: pystr where
  "PROGRESS_TEXT = [0x23F3] @ str '' Downloading your video...''"

definition THANKS_LINE :: pystr where
  "THANKS_LINE =
     [0x0A, 0x1F30C] @ str '' Thanks for using AuraLinkerBot!''"

definition video_caption :: "pystr \<Rightarrow> pystr" where
  "video_caption title = [0x2705] @ str '' '' @ title @ THANKS_LINE"

definition document_caption :: "pystr \<Rightarrow> pystr" where
  "document_caption title =
     [0x2705] @ str '' '' @ title @ str '' (sent as file)'' @ THANKS_LINE"

definition error_text :: "exn \<Rightarrow> pystr" where
  "error_text e =
     [0x26A0, 0xFE0F] @ str '' Error: '' @ str_of e"

definition title_of :: "(pystr \<times> pystr) list \<Rightarrow> pystr" where
  \<comment> \<open>\<open>info.get("title", "video")\<close>\<close>
  "title_of info = (case map_of info (str ''title'') of None \<Rightarrow> str ''video'' | Some t \<Rightarrow> t)"

definition relay :: "env \<Rightarrow> pystr \<Rightarrow> unit io" where
  \<comment> \<open>the body of the outer \<open>try\<close>\<close>
  "relay env url =
     io_bind (io_call (Download url) (ytdlp_download env url)) (\<lambda>(file_path, info).
       let title = title_of info in
       io_bind (io_call (GetSize file_path) (getsize env file_path)) (\<lambda>size_bytes.
         io_bind
           (io_try
              (io_call (ReplyVideo file_path (video_caption title))
                 (reply_video env file_path (video_caption title)))
              (\<lambda>_. io_call (ReplyDocument file_path (document_caption title))
                      (reply_document env file_path (document_caption title))))
           (\<lambda>_. io_call StatusDelete (status_delete env))))"

definition handle_text :: "env \<Rightarrow> pystr option \<Rightarrow> unit io" where
  "handle_text env message_text =
     (let text = (case message_text of None \<Rightarrow> [] | Some t \<Rightarrow> t)
      in case extract_url text of
           None \<Rightarrow> io_call (ReplyText REJECTION_TEXT) (reply_text env REJECTION_TEXT)
         | Some url \<Rightarrow>
             if url = [] \<or> \<not> supports_site (unicode_lower env) url
             then io_call (ReplyText REJECTION_TEXT) (reply_text env REJECTION_TEXT)
             else
               io_bind (io_call SendAction (send_action env)) (\<lambda>_.
               io_bind (io_call (ReplyText PROGRESS_TEXT) (reply_text env PROGRESS_TEXT)) (\<lambda>status.
                 io_finally
                   (io_try (relay env url)
                      (\<lambda>e. io_call (StatusEdit (error_text e)) (status_edit_text env (error_text e))))
                   (janitor_sweep (loop_time env) (glob env)))))"

section \<open>Notions used to state the properties\<close>

text \<open>
  \<open>scheme_fold\<close> maps every code point that the pattern accepts for a letter of
  \<open>https\<close> to that letter: the capitals H, T, P, S to lower case and the long s
  (U+017F) to \<open>s\<close>; it leaves the other code points as they are. A text begins with
  \<open>http://\<close> in the pattern's sense when its image under \<open>fold_scheme\<close> begins with
  \<open>http://\<close>.

  \<open>nonspace_run s\<close> is the longest prefix of \<open>s\<close> without whitespace, and
  \<open>nonspace_at k s\<close> says that \<open>s\<close> has a character at index \<open>k\<close> that is not
  whitespace. \<open>url_start s\<close> says that a URL begins at the head of \<open>s\<close>: \<open>http://\<close> or
  \<open>https://\<close> in that sense, followed at once by a character that is not
  whitespace; \<open>url_at s\<close> is that URL, up to the next whitespace or the end of \<open>s\<close>.
\<close>

definition scheme_fold :: "nat \<Rightarrow> nat" where
  "scheme_fold n =
     (if n = 72 \<or> n = 84 \<or> n = 80 \<or> n = 83 then n + 32 else if n = 0x17F then 115 else n)"

definition fold_scheme :: "pystr \<Rightarrow> pystr" where
  "fold_scheme s = map scheme_fold s"

definition nonspace_run :: "pystr \<Rightarrow> pystr" where
  "nonspace_run s = takeWhile (\<lambda>c. \<not> is_space c) s"

definition nonspace_at :: "nat \<Rightarrow> pystr \<Rightarrow> bool" where
  "nonspace_at k s = (case drop k s of [] \<Rightarrow> False | c # _ \<Rightarrow> \<not> is_space c)"

definition url_start :: "pystr \<Rightarrow> bool" where
  "url_start s \<longleftrightarrow>
     (prefix (str ''http://'') (fold_scheme s) \<and> nonspace_at 7 s) \<or>
     (prefix (str ''https://'') (fold_scheme s) \<and> nonspace_at 8 s)"

definition url_at :: "pystr \<Rightarrow> pystr option" where
  "url_at s =
     (if prefix (str ''https://'') (fold_scheme s) \<and> nonspace_run (drop 8 s) \<noteq> []
      then Some (take 8 s @ nonspace_run (drop 8 s))
      else if prefix (str ''http://'') (fold_scheme s) \<and> nonspace_run (drop 7 s) \<noteq> []
      then Some (take 7 s @ nonspace_run (drop 7 s))
      else None)"

text \<open>\<open>lits p\<close> is the pattern that matches the characters of \<open>p\<close> one after the other.\<close>

definition lits :: "string \<Rightarrow> item list" where
  "lits p = map (\<lambda>c. One (Chr c)) p"

text \<open>The events that are calls to the file system.\<close>

fun fs_event :: "event \<Rightarrow> bool" where
  "fs_event Glob = True"
| "fs_event (IsFile n) = True"
| "fs_event (Stat n) = True"
| "fs_event (Unlink n) = True"
| "fs_event ev = False"

text \<open>
  Two concrete values for running the handler: an environment in which every call
  succeeds, whose download directory is empty and whose event loop clock reads 5000
  seconds, and a regular file that can be removed, with a given modification time.
\<close>

definition calm_env :: env where
  "calm_env =
     \<lparr> reply_text = (\<lambda>t. Inr ()),
       send_action = Inr (),
       ytdlp_download =
         (\<lambda>url. Inr (str ''/tmp/downloads/clip.mp4'', [(str ''title'', str ''clip'')])),
       getsize = (\<lambda>p. Inr 1048576),
       reply_video = (\<lambda>p c. Inr ()),
       reply_document = (\<lambda>p c. Inr ()),
       status_delete = Inr (),
       status_edit_text = (\<lambda>t. Inr ()),
       loop_time = 5000,
       glob = Inr [],
       unicode_lower = (\<lambda>s. s) \<rparr>"

definition aged_file :: "pystr \<Rightarrow> real \<Rightarrow> entry" where
  "aged_file n mtime = \<lparr> name = n, is_file = Inr True, st_mtime = Inr mtime, os_unlink = Inr () \<rparr>"

section \<open>The matcher on the URL pattern\<close>

text \<open>The definitions that evaluate the text functions on a given text.\<close>

lemmas text_eval =
  str_def is_space_def ignorecase_variants_def URL_REGEX_def extract_url_def strip_def
  supports_site_def ALLOWED_HOSTS_def lower_def ascii_lower_def sublist_code(3)
  scheme_fold_def fold_scheme_def url_start_def nonspace_at_def

lemma str_simps: "str [] = []" "str (c # cs) = of_char c # str cs"
  by (simp_all add: str_def)

lemma length_str: "length (str p) = length p"
  by (simp add: str_def)

lemma is_space_scheme_fold: "is_space c \<Longrightarrow> scheme_fold c = c"
  by (auto simp: is_space_def scheme_fold_def)

lemma re_match_lits:
  "\<forall>c\<in>set p. \<forall>x. (x \<in> set (ignorecase_variants c)) = (scheme_fold x = of_char c) \<Longrightarrow>
   re_match True (lits p @ r) s =
     (if prefix (str p) (fold_scheme s)
      then map_option (\<lambda>n. length p + n) (re_match True r (drop (length p) s))
      else None)"
proof (induction p arbitrary: s)
  case Nil
  show ?case by (cases "re_match True r s") (simp_all add: lits_def str_simps)
next
  case (Cons c p)
  show ?case
  proof (cases s)
    case Nil
    then show ?thesis by (simp add: lits_def fold_scheme_def str_simps)
  next
    case (Cons x xs)
    have "re_match True (lits p @ r) xs =
          (if prefix (str p) (fold_scheme xs)
           then map_option (\<lambda>n. length p + n) (re_match True r (drop (length p) xs))
           else None)"
      using Cons.IH Cons.prems by simp
    moreover have "(x \<in> set (ignorecase_variants c)) = (scheme_fold x = of_char c)"
      using Cons.prems by simp
    ultimately show ?thesis using Cons
      by (auto simp: lits_def fold_scheme_def str_simps option.map_comp comp_def)
  qed
qed

lemma re_match_plus_notspace:
  "re_match ic [Plus NotSpace] s =
     (if nonspace_run s = [] then None else Some (length (nonspace_run s)))"
  by (induction s) (auto simp: nonspace_run_def)

lemma URL_REGEX_items:
  "fst URL_REGEX = lits ''http'' @ (Opt (Chr CHR ''s'') # lits ''://'' @ [Plus NotSpace])"
  by (simp add: URL_REGEX_def lits_def)

lemma scheme_lits:
  "\<forall>c\<in>set ''http''. \<forall>x. (x \<in> set (ignorecase_variants c)) = (scheme_fold x = of_char c)"
  "\<forall>c\<in>set ''://''. \<forall>x. (x \<in> set (ignorecase_variants c)) = (scheme_fold x = of_char c)"
  "(x \<in> set (ignorecase_variants CHR ''s'')) = (scheme_fold x = 115)"
  by (auto simp: ignorecase_variants_def scheme_fold_def)

lemma re_match_tail:
  "re_match True (lits ''://'' @ [Plus NotSpace]) t =
     (if prefix (str ''://'') (fold_scheme t) \<and> nonspace_run (drop 3 t) \<noteq> []
      then Some (3 + length (nonspace_run (drop 3 t)))
      else None)"
  by (simp add: re_match_lits scheme_lits re_match_plus_notspace eval_nat_numeral)

lemma re_match_opt_tail:
  "re_match True (Opt (Chr CHR ''s'') # lits ''://'' @ [Plus NotSpace]) t =
     (if prefix (str ''s://'') (fold_scheme t) \<and> nonspace_run (drop 4 t) \<noteq> []
      then Some (4 + length (nonspace_run (drop 4 t)))
      else re_match True (lits ''://'' @ [Plus NotSpace]) t)"
proof (cases t)
  case Nil
  then show ?thesis by (simp add: fold_scheme_def str_simps)
next
  case (Cons x xs)
  show ?thesis
  proof (cases "scheme_fold x = 115")
    case True
    then have "\<not> prefix (str ''://'') (fold_scheme t)"
      using Cons by (simp add: fold_scheme_def str_simps)
    then show ?thesis using Cons True
      by (simp add: re_match_tail scheme_lits fold_scheme_def str_simps eval_nat_numeral)
  next
    case False
    then show ?thesis using Cons by (simp add: scheme_lits fold_scheme_def str_simps)
  qed
qed

lemma prefix_split: "prefix (p @ q) s \<longleftrightarrow> prefix p s \<and> prefix q (drop (length p) s)"
  by (metis append_eq_conv_conj prefix_def prefixI append.assoc append_take_drop_id)

lemma re_match_URL:
  "re_match True (fst URL_REGEX) s =
     (if prefix (str ''https://'') (fold_scheme s) \<and> nonspace_run (drop 8 s) \<noteq> []
      then Some (8 + length (nonspace_run (drop 8 s)))
      else if prefix (str ''http://'') (fold_scheme s) \<and> nonspace_run (drop 7 s) \<noteq> []
      then Some (7 + length (nonspace_run (drop 7 s)))
      else None)"
proof -
  have a: "prefix (str ''https://'') (fold_scheme s) \<longleftrightarrow>
      prefix (str ''http'') (fold_scheme s) \<and> prefix (str ''s://'') (fold_scheme (drop 4 s))"
    using prefix_split [of "str ''http''" "str ''s://''" "fold_scheme s"]
    by (simp add: fold_scheme_def drop_map str_def eval_nat_numeral)
  have b: "prefix (str ''http://'') (fold_scheme s) \<longleftrightarrow>
      prefix (str ''http'') (fold_scheme s) \<and> prefix (str ''://'') (fold_scheme (drop 4 s))"
    using prefix_split [of "str ''http''" "str ''://''" "fold_scheme s"]
    by (simp add: fold_scheme_def drop_map str_def eval_nat_numeral)
  show ?thesis
    unfolding URL_REGEX_items
    by (simp add: re_match_lits [of "''http''"] scheme_lits re_match_opt_tail re_match_tail a b
          eval_nat_numeral)
qed

lemma nonspace_run_empty: "nonspace_run t \<noteq> [] \<longleftrightarrow> nonspace_at 0 t"
  by (cases t) (simp_all add: nonspace_run_def nonspace_at_def)

lemma nonspace_at_drop: "nonspace_at k s = nonspace_at 0 (drop k s)"
  by (simp add: nonspace_at_def)

lemma url_at_None: "url_at s = None \<longleftrightarrow> \<not> url_start s"
  by (auto simp: url_at_def url_start_def nonspace_run_empty nonspace_at_drop [of 7]
      nonspace_at_drop [of 8])

lemma re_match_url_at: "re_match True (fst URL_REGEX) s = map_option length (url_at s)"
proof -
  have "prefix (str ''https://'') (fold_scheme s) \<Longrightarrow> length (take 8 s) = 8"
    by (auto simp: prefix_def fold_scheme_def length_str dest!: arg_cong [where f = length])
  moreover have "prefix (str ''http://'') (fold_scheme s) \<Longrightarrow> length (take 7 s) = 7"
    by (auto simp: prefix_def fold_scheme_def length_str dest!: arg_cong [where f = length])
  ultimately show ?thesis
    by (simp add: re_match_URL url_at_def)
qed

lemma url_at_prefix: "url_at s = Some u \<Longrightarrow> prefix u s"
proof -
  have "prefix (take k s @ nonspace_run (drop k s)) s" for k
  proof -
    have "s = (take k s @ nonspace_run (drop k s)) @ dropWhile (\<lambda>c. \<not> is_space c) (drop k s)"
      by (simp add: nonspace_run_def)
    then show ?thesis by (rule prefixI)
  qed
  then show "url_at s = Some u \<Longrightarrow> prefix u s"
    by (auto simp: url_at_def split: if_splits)
qed

lemma re_search_Nil: "re_search URL_REGEX [] = None"
  by (simp add: URL_REGEX_def)

lemma re_search_step:
  "re_search r (x # xs) =
     (case re_match (snd r) (fst r) (x # xs) of
        Some n \<Rightarrow> Some (take n (x # xs))
      | None \<Rightarrow> re_search r xs)"
  by (cases r) (simp split: option.split)

lemma snd_URL_REGEX: "snd URL_REGEX = True"
  by (simp add: URL_REGEX_def)

lemma re_search_Cons:
  "re_search URL_REGEX (x # xs) =
     (case url_at (x # xs) of Some u \<Rightarrow> Some u | None \<Rightarrow> re_search URL_REGEX xs)"
proof -
  have "re_search URL_REGEX (x # xs) =
        (case re_match True (fst URL_REGEX) (x # xs) of
           Some n \<Rightarrow> Some (take n (x # xs))
         | None \<Rightarrow> re_search URL_REGEX xs)"
    using re_search_step [of URL_REGEX x xs] by (simp only: snd_URL_REGEX)
  moreover have "take (length u) (x # xs) = u" if "url_at (x # xs) = Some u" for u
    using url_at_prefix [OF that] by (auto simp: prefix_def)
  ultimately show ?thesis
    by (auto simp: re_match_url_at split: option.splits)
qed

lemma url_at_Nil: "url_at [] = None"
  by (simp add: url_at_def fold_scheme_def str_simps)

lemma re_search_at:
  "url_at s = Some u \<Longrightarrow> re_search URL_REGEX s = Some u"
  by (cases s) (simp_all add: url_at_Nil re_search_Cons)

lemma re_search_skip:
  "\<forall>i<length pre. \<not> url_start (drop i (pre @ s)) \<Longrightarrow>
   re_search URL_REGEX (pre @ s) = re_search URL_REGEX s"
proof (induction pre)
  case Nil
  show ?case by simp
next
  case (Cons x pre)
  have "\<not> url_start (drop 0 ((x # pre) @ s))"
    using Cons.prems by blast
  then have "url_at (x # pre @ s) = None"
    by (simp add: url_at_None)
  moreover have "\<forall>i<length pre. \<not> url_start (drop i (pre @ s))"
  proof (intro allI impI)
    fix i assume "i < length pre"
    then have "\<not> url_start (drop (Suc i) ((x # pre) @ s))"
      using Cons.prems by (metis Suc_less_eq length_Cons)
    then show "\<not> url_start (drop i (pre @ s))" by simp
  qed
  ultimately show ?case
    using Cons.IH by (simp add: re_search_Cons)
qed

lemma re_search_found:
  "re_search URL_REGEX s = Some u \<Longrightarrow> \<exists>pre t. s = pre @ t \<and> url_at t = Some u"
proof (induction s)
  case Nil
  then show ?case by (simp add: re_search_Nil)
next
  case (Cons x xs)
  show ?case
  proof (cases "url_at (x # xs)")
    case None
    then have "re_search URL_REGEX xs = Some u"
      using Cons.prems by (simp add: re_search_Cons)
    then obtain pre t where "xs = pre @ t" "url_at t = Some u"
      using Cons.IH by blast
    then have "x # xs = (x # pre) @ t \<and> url_at t = Some u" by simp
    then show ?thesis by blast
  next
    case (Some v)
    then have "v = u" using Cons.prems by (simp add: re_search_Cons)
    then have "x # xs = [] @ (x # xs) \<and> url_at (x # xs) = Some u"
      using Some by simp
    then show ?thesis by blast
  qed
qed

lemma re_search_absent:
  "\<not> sublist (str ''http://'') (fold_scheme s) \<Longrightarrow> \<not> sublist (str ''https://'') (fold_scheme s) \<Longrightarrow>
   re_search URL_REGEX s = None"
proof (induction s)
  case Nil
  show ?case by (simp add: re_search_Nil)
next
  case (Cons x xs)
  have a: "\<not> prefix (str ''http://'') (fold_scheme (x # xs))" "\<not> prefix (str ''https://'') (fold_scheme (x # xs))"
    using Cons.prems by (auto intro: prefix_imp_sublist)
  then have "url_at (x # xs) = None" by (simp add: url_at_def)
  moreover have "\<not> sublist (str ''http://'') (fold_scheme xs)" "\<not> sublist (str ''https://'') (fold_scheme xs)"
    using Cons.prems by (auto simp: fold_scheme_def sublist_Cons_right)
  ultimately show ?case using Cons.IH by (simp add: re_search_Cons)
qed

subsection \<open>Stripping does not change what is found\<close>

lemma scheme_nonspace:
  "\<forall>c\<in>set (str ''http://''). \<not> is_space c" "\<forall>c\<in>set (str ''https://''). \<not> is_space c"
  by (simp_all add: text_eval)

lemma url_at_space: "is_space x \<Longrightarrow> url_at (x # xs) = None"
proof -
  assume sp: "is_space x"
  have "\<not> is_space 104" by (simp add: is_space_def)
  then have "scheme_fold x \<noteq> 104"
    using sp is_space_scheme_fold [of x] by auto
  then show ?thesis by (simp add: url_at_def fold_scheme_def str_simps)
qed

lemma re_search_lstrip: "re_search URL_REGEX (dropWhile is_space s) = re_search URL_REGEX s"
  by (induction s) (simp_all add: re_search_Cons url_at_space)

lemma prefix_scheme_append:
  assumes p: "\<forall>c\<in>set p. \<not> is_space c" and ws: "\<forall>c\<in>set ws. is_space c"
  shows "prefix p (fold_scheme (t @ ws)) \<longleftrightarrow> prefix p (fold_scheme t)"
proof
  assume "prefix p (fold_scheme t)"
  then show "prefix p (fold_scheme (t @ ws))" by (simp add: fold_scheme_def)
next
  assume "prefix p (fold_scheme (t @ ws))"
  then have "prefix p (fold_scheme t @ fold_scheme ws)" by (simp add: fold_scheme_def)
  then consider "prefix p (fold_scheme t)" | us where "p = fold_scheme t @ us" "prefix us (fold_scheme ws)"
    by (auto simp: prefix_append)
  then show "prefix p (fold_scheme t)"
  proof cases
    case 1
    then show ?thesis .
  next
    case 2
    have "fold_scheme ws = ws"
      using ws by (simp add: fold_scheme_def is_space_scheme_fold map_idI)
    show ?thesis
    proof (cases us)
      case Nil
      then show ?thesis using 2 by simp
    next
      case (Cons u us')
      then have "u \<in> set ws" "u \<in> set p"
        using 2 \<open>fold_scheme ws = ws\<close> by (auto simp: prefix_def)
      then show ?thesis using p ws by blast
    qed
  qed
qed

lemma nonspace_run_append:
  "\<forall>c\<in>set ws. is_space c \<Longrightarrow> nonspace_run (a @ ws) = nonspace_run a"
proof -
  assume ws: "\<forall>c\<in>set ws. is_space c"
  have "takeWhile (\<lambda>c. \<not> is_space c) ws = []"
    using ws by (cases ws) simp_all
  then show ?thesis
    by (induction a) (simp_all add: nonspace_run_def)
qed

lemma url_at_append:
  assumes ws: "\<forall>c\<in>set ws. is_space c"
  shows "url_at (t @ ws) = url_at t"
proof -
  have len: "prefix p (fold_scheme t) \<Longrightarrow> length p \<le> length t" for p
    by (auto simp: prefix_def fold_scheme_def length_str dest!: arg_cong [where f = length])
  have a: "prefix (str ''https://'') (fold_scheme (t @ ws)) \<longleftrightarrow> prefix (str ''https://'') (fold_scheme t)"
    by (rule prefix_scheme_append [OF scheme_nonspace(2) ws])
  have b: "prefix (str ''http://'') (fold_scheme (t @ ws)) \<longleftrightarrow> prefix (str ''http://'') (fold_scheme t)"
    by (rule prefix_scheme_append [OF scheme_nonspace(1) ws])
  have k8: "nonspace_run (drop 8 (t @ ws)) = nonspace_run (drop 8 t) \<and> take 8 (t @ ws) = take 8 t"
    if "prefix (str ''https://'') (fold_scheme t)"
  proof -
    have "8 \<le> length t" using len [OF that] by (simp add: length_str)
    then show ?thesis by (simp add: nonspace_run_append [OF ws])
  qed
  have k7: "nonspace_run (drop 7 (t @ ws)) = nonspace_run (drop 7 t) \<and> take 7 (t @ ws) = take 7 t"
    if "prefix (str ''http://'') (fold_scheme t)"
  proof -
    have "7 \<le> length t" using len [OF that] by (simp add: length_str)
    then show ?thesis by (simp add: nonspace_run_append [OF ws])
  qed
  show ?thesis
  proof (cases "prefix (str ''https://'') (fold_scheme t)")
    case True
    then show ?thesis
      using k8 [OF True] 
      by (cases "prefix (str ''http://'') (fold_scheme t)") (simp_all only: url_at_def a b k7 simp_thms if_True if_False)
  next
    case False
    then show ?thesis
      by (cases "prefix (str ''http://'') (fold_scheme t)") (simp_all only: url_at_def a b k7 simp_thms if_True if_False)
  qed
qed

lemma re_search_append_space:
  "\<forall>c\<in>set ws. is_space c \<Longrightarrow> re_search URL_REGEX (s @ ws) = re_search URL_REGEX s"
proof (induction s)
  case Nil
  then have "re_search URL_REGEX ws = None"
    by (induction ws) (simp_all add: re_search_Nil re_search_Cons url_at_space)
  then show ?case by (simp add: re_search_Nil)
next
  case (Cons x xs)
  have "url_at (x # xs @ ws) = url_at (x # xs)"
    using url_at_append [OF Cons.prems, of "x # xs"] by simp
  then show ?case using Cons by (simp add: re_search_Cons split: option.split)
qed

lemma re_search_strip: "re_search URL_REGEX (strip s) = re_search URL_REGEX s"
proof -
  define t where "t = dropWhile is_space s"
  have "t = rev (dropWhile is_space (rev t)) @ rev (takeWhile is_space (rev t))"
    by (metis rev_append rev_rev_ident takeWhile_dropWhile_id)
  moreover have "\<forall>c\<in>set (rev (takeWhile is_space (rev t))). is_space c"
    by (auto dest: set_takeWhileD)
  ultimately have "re_search URL_REGEX t = re_search URL_REGEX (rev (dropWhile is_space (rev t)))"
    using re_search_append_space by metis
  then show ?thesis
    by (simp add: strip_def t_def re_search_lstrip)
qed

lemma extract_url_search: "extract_url text = re_search URL_REGEX text"
  by (cases "text") (auto simp: extract_url_def re_search_strip re_search_Nil split: option.splits)

lemma url_at_here:
  assumes sch: "fold_scheme sch = str ''http://'' \<or> fold_scheme sch = str ''https://''"
    and body: "body \<noteq> []" "\<forall>c\<in>set body. \<not> is_space c"
    and rest: "case rest of [] \<Rightarrow> True | c # _ \<Rightarrow> is_space c"
  shows "url_at (sch @ body @ rest) = Some (sch @ body)"
proof -
  have "takeWhile (\<lambda>c. \<not> is_space c) rest = []"
    using rest by (cases rest) simp_all
  then have run: "nonspace_run (body @ rest) = body"
    using body(2) by (simp add: nonspace_run_def takeWhile_append2)
  from sch show ?thesis
  proof
    assume a: "fold_scheme sch = str ''http://''"
    then have "length sch = 7"
      by (auto simp: fold_scheme_def length_str dest!: arg_cong [where f = length])
    moreover have "fold_scheme (sch @ body @ rest) = str ''http://'' @ fold_scheme (body @ rest)"
      using a by (simp add: fold_scheme_def)
    ultimately show ?thesis using run body(1) by (simp add: url_at_def str_simps)
  next
    assume a: "fold_scheme sch = str ''https://''"
    then have "length sch = 8"
      by (auto simp: fold_scheme_def length_str dest!: arg_cong [where f = length])
    moreover have "fold_scheme (sch @ body @ rest) = str ''https://'' @ fold_scheme (body @ rest)"
      using a by (simp add: fold_scheme_def)
    ultimately show ?thesis using run body(1) by (simp add: url_at_def str_simps)
  qed
qed

subsection \<open>Every text in which a URL begins has a first one\<close>

lemma dropWhile_nonspace_head:
  "case dropWhile (\<lambda>c. \<not> is_space c) xs of [] \<Rightarrow> True | c # _ \<Rightarrow> is_space c"
  by (induction xs) auto

lemma url_at_split:
  assumes "url_at t = Some u"
  shows "\<exists>sch body rest. t = sch @ body @ rest \<and> u = sch @ body
           \<and> (fold_scheme sch = str ''http://'' \<or> fold_scheme sch = str ''https://'')
           \<and> body \<noteq> [] \<and> (\<forall>c\<in>set body. \<not> is_space c)
           \<and> (case rest of [] \<Rightarrow> True | c # _ \<Rightarrow> is_space c)"
proof -
  have parts: "\<exists>sch body rest. t = sch @ body @ rest \<and> u = sch @ body
           \<and> fold_scheme sch = p
           \<and> body \<noteq> [] \<and> (\<forall>c\<in>set body. \<not> is_space c)
           \<and> (case rest of [] \<Rightarrow> True | c # _ \<Rightarrow> is_space c)"
    if p: "prefix p (fold_scheme t)" and k: "length p = k"
      and run: "nonspace_run (drop k t) \<noteq> []" and u: "u = take k t @ nonspace_run (drop k t)"
    for p k
  proof -
    let ?rest = "dropWhile (\<lambda>c. \<not> is_space c) (drop k t)"
    have "t = take k t @ nonspace_run (drop k t) @ ?rest"
      by (simp add: nonspace_run_def)
    moreover have "fold_scheme (take k t) = p"
      using p k by (auto simp: prefix_def fold_scheme_def take_map [symmetric])
    moreover have "\<forall>c\<in>set (nonspace_run (drop k t)). \<not> is_space c"
      by (auto simp: nonspace_run_def dest: set_takeWhileD)
    moreover have "case ?rest of [] \<Rightarrow> True | c # _ \<Rightarrow> is_space c"
      by (rule dropWhile_nonspace_head)
    ultimately show ?thesis using run u by blast
  qed
  consider (s) "prefix (str ''https://'') (fold_scheme t)" "nonspace_run (drop 8 t) \<noteq> []"
      "u = take 8 t @ nonspace_run (drop 8 t)"
    | (p) "prefix (str ''http://'') (fold_scheme t)" "nonspace_run (drop 7 t) \<noteq> []"
      "u = take 7 t @ nonspace_run (drop 7 t)"
    using assms by (auto simp: url_at_def split: if_splits)
  then show ?thesis
  proof cases
    case s
    show ?thesis
      using parts [OF s(1) _ s(2,3)] by (auto simp: length_str)
  next
    case p
    show ?thesis
      using parts [OF p(1) _ p(2,3)] by (auto simp: length_str)
  qed
qed

lemma first_url_start_split:
  assumes "url_start (drop i text)"
  shows "\<exists>pre sch body rest. text = pre @ sch @ body @ rest
           \<and> (fold_scheme sch = str ''http://'' \<or> fold_scheme sch = str ''https://'')
           \<and> body \<noteq> [] \<and> (\<forall>c\<in>set body. \<not> is_space c)
           \<and> (case rest of [] \<Rightarrow> True | c # _ \<Rightarrow> is_space c)
           \<and> (\<forall>j<length pre. \<not> url_start (drop j text))"
proof -
  define k where "k = (LEAST j. url_start (drop j text))"
  have k: "url_start (drop k text)"
    unfolding k_def using assms by (rule LeastI)
  have least: "\<forall>j<k. \<not> url_start (drop j text)"
    unfolding k_def using not_less_Least by blast
  have "\<not> url_start []"
    using url_at_Nil by (simp add: url_at_None)
  then have "k < length text"
    using k by (cases "k < length text") auto
  then have len: "length (take k text) = k"
    by simp
  obtain u where "url_at (drop k text) = Some u"
    using k url_at_None [of "drop k text"] by (cases "url_at (drop k text)") auto
  then obtain sch body rest where parts: "drop k text = sch @ body @ rest"
      "fold_scheme sch = str ''http://'' \<or> fold_scheme sch = str ''https://''"
      "body \<noteq> []" "\<forall>c\<in>set body. \<not> is_space c"
      "case rest of [] \<Rightarrow> True | c # _ \<Rightarrow> is_space c"
    using url_at_split by blast
  have "text = take k text @ sch @ body @ rest"
    using parts(1) by (metis append_take_drop_id)
  then show ?thesis
    using parts(2-5) least len by metis
qed

section \<open>Traces of the sweep and of the handler\<close>

lemmas io_defs = io_return_def io_call_def io_bind_def io_try_def io_finally_def

lemma sweep_loop_fs: "ev \<in> set (fst (sweep_loop now ps)) \<Longrightarrow> fs_event ev"
  by (induction ps) (auto simp: io_defs split: sum.splits prod.splits if_splits)

lemma janitor_sweep_trace:
  "fst (janitor_sweep now listing) =
     Glob # (case listing of Inl e \<Rightarrow> [] | Inr ps \<Rightarrow> fst (sweep_loop now ps))"
  by (auto simp: janitor_sweep_def io_defs split: sum.splits prod.splits)

lemma janitor_sweep_fs: "ev \<in> set (fst (janitor_sweep now listing)) \<Longrightarrow> fs_event ev"
  by (cases listing) (auto simp: janitor_sweep_trace dest: sweep_loop_fs)

lemma janitor_sweep_returns: "snd (janitor_sweep now listing) = Inr ()"
  by (auto simp: janitor_sweep_def io_defs split: sum.splits prod.splits)

lemma janitor_sweep_Glob: "\<exists>tr. fst (janitor_sweep now listing) = Glob # tr"
  by (simp add: janitor_sweep_trace)

lemma sweep_loop_append:
  "sweep_loop now before = (tr, Inr ()) \<Longrightarrow>
   sweep_loop now (before @ rest) = (tr @ fst (sweep_loop now rest), snd (sweep_loop now rest))"
proof (induction before arbitrary: tr)
  case Nil
  then show ?case by (simp add: io_return_def)
next
  case (Cons p ps)
  show ?case
  proof (cases "sweep_loop now ps")
    case (Pair tr' r)
    then show ?thesis
      using Cons.prems Cons.IH
      by (auto simp: io_bind_def io_call_def split: sum.splits if_splits prod.splits)
  qed
qed

lemma supports_site_nonempty: "supports_site ul url \<Longrightarrow> url \<noteq> []"
proof
  assume "supports_site ul url" "url = []"
  moreover have "\<not> supports_site ul []" by (simp add: text_eval)
  ultimately show False by simp
qed

lemma handle_text_accepted:
  assumes "extract_url text = Some url" "supports_site (unicode_lower env) url"
    and "send_action env = Inr ()" "reply_text env PROGRESS_TEXT = Inr ()"
  shows "handle_text env (Some text) =
     (let body = io_try (relay env url)
                   (\<lambda>e. io_call (StatusEdit (error_text e)) (status_edit_text env (error_text e)))
      in ([SendAction, ReplyText PROGRESS_TEXT] @ fst body
            @ fst (janitor_sweep (loop_time env) (glob env)), snd body))"
proof -
  obtain tr where "janitor_sweep (loop_time env) (glob env) = (tr, Inr ())"
    using janitor_sweep_returns [of "loop_time env" "glob env"]
    by (cases "janitor_sweep (loop_time env) (glob env)") auto
  then show ?thesis
    using assms supports_site_nonempty [OF assms(2)]
    by (simp add: handle_text_def io_bind_def io_call_def io_finally_def Let_def split: prod.splits)
qed

lemma relay_download_fails:
  "ytdlp_download env url = Inl e \<Longrightarrow> relay env url = ([Download url], Inl e)"
  by (simp add: relay_def io_defs)

lemma relay_video_fails:
  assumes "ytdlp_download env url = Inr (file_path, info)"
    and "getsize env file_path = Inr size_bytes"
    and "reply_video env file_path (video_caption (title_of info)) = Inl e"
  shows "relay env url =
     ([Download url, GetSize file_path,
       ReplyVideo file_path (video_caption (title_of info)),
       ReplyDocument file_path (document_caption (title_of info))]
      @ (case reply_document env file_path (document_caption (title_of info)) of
           Inl e1 \<Rightarrow> [] | Inr _ \<Rightarrow> [StatusDelete]),
      (case reply_document env file_path (document_caption (title_of info)) of
           Inl e1 \<Rightarrow> Inl e1 | Inr _ \<Rightarrow> status_delete env))"
  using assms by (simp add: relay_def io_defs Let_def split: sum.splits)

lemma relay_no_fs: "ev \<in> set (fst (relay env url)) \<Longrightarrow> \<not> fs_event ev"
  by (auto simp: relay_def io_defs Let_def split: sum.splits prod.splits)

lemma janitor_sweep_no_reply:
  "ReplyVideo p c \<notin> set (fst (janitor_sweep now listing))"
  "ReplyDocument p c \<notin> set (fst (janitor_sweep now listing))"
  using janitor_sweep_fs [of "ReplyVideo p c" now listing]
    janitor_sweep_fs [of "ReplyDocument p c" now listing]
  by auto

lemma io_try_no_fs:
  "ev \<in> set (fst (io_try (relay env url)
       (\<lambda>e. io_call (StatusEdit (error_text e)) (status_edit_text env (error_text e))))) \<Longrightarrow>
   \<not> fs_event ev"
proof -
  obtain tr r where r: "relay env url = (tr, r)" by (cases "relay env url")
  then have "\<forall>ev\<in>set tr. \<not> fs_event ev"
    using relay_no_fs [of _ env url] by auto
  then show "ev \<in> set (fst (io_try (relay env url)
       (\<lambda>e. io_call (StatusEdit (error_text e)) (status_edit_text env (error_text e))))) \<Longrightarrow>
   \<not> fs_event ev"
    using r by (auto simp: io_try_def io_call_def split: sum.splits)
qed

lemma bex_triple: "(\<exists>h\<in>S. \<exists>p s. P h p s) \<longleftrightarrow> (\<exists>h p s. h \<in> S \<and> P h p s)"
  by blast

section \<open>Properties\<close>

subsection \<open>The sweep of the download directory\<close>

text \<open>
  C1. The property: a sweep deletes a regular file of the download directory exactly when
  its modification time lies more than one hour before the wall-clock time of the sweep;
  with files modified 30 and 90 minutes before, only the second is deleted.

  The loop compares \<open>st_mtime\<close>, which counts seconds since the epoch, with
  \<open>asyncio.get_event_loop().time() - 60*60\<close>, and the event loop's clock is monotonic,
  counted from an arbitrary origin (on Linux the start of the machine), not from the epoch.
  At wall-clock time 1700000000, on a machine whose monotonic clock reads 5000, the sweep
  looks at both files and unlinks neither. Had the clock read the wall-clock time, the
  same sweep would have unlinked the older file only, as the second equation shows.
\<close>

theorem janitor_sweep_monotonic_clock:
  "janitor_sweep 5000
     (Inr [aged_file (str ''old.mp4'') (1700000000 - 90 * 60),
           aged_file (str ''new.mp4'') (1700000000 - 30 * 60)])
   = ([Glob, IsFile (str ''old.mp4''), Stat (str ''old.mp4''),
       IsFile (str ''new.mp4''), Stat (str ''new.mp4'')], Inr ())
   \<and> janitor_sweep 1700000000
     (Inr [aged_file (str ''old.mp4'') (1700000000 - 90 * 60),
           aged_file (str ''new.mp4'') (1700000000 - 30 * 60)])
   = ([Glob, IsFile (str ''old.mp4''), Stat (str ''old.mp4''), Unlink (str ''old.mp4''),
       IsFile (str ''new.mp4''), Stat (str ''new.mp4'')], Inr ())"
  by (simp add: janitor_sweep_def aged_file_def unlink_missing_ok_def io_defs)

text \<open>
  C10. When the sweep has gone through the entries \<open>before\<close> without an exception and
  reaches a regular file \<open>p\<close> that is old enough for the loop to unlink it, and the
  unlink raises an exception other than \<open>FileNotFoundError\<close>, the sweep ends there: its
  events are those of \<open>before\<close> followed by the three calls on \<open>p\<close>, none of the entries
  \<open>after\<close> is looked at or unlinked, and the sweep returns normally, so that nothing
  reaches the handler or the chat.
\<close>

theorem janitor_sweep_stops_at_unlink_error:
  assumes "sweep_loop now before = (tr, Inr ())"
    and "is_file p = Inr True" and "st_mtime p = Inr mtime" and "mtime < now - 60 * 60"
    and "os_unlink p = Inl (OtherException m)"
  shows "janitor_sweep now (Inr (before @ p # after)) =
           (Glob # tr @ [IsFile (name p), Stat (name p), Unlink (name p)], Inr ())"
proof -
  have "sweep_loop now (p # after) =
          ([IsFile (name p), Stat (name p), Unlink (name p)], Inl (OtherException m))"
    using assms(2-5) by (simp add: io_bind_def io_call_def unlink_missing_ok_def)
  then have "sweep_loop now (before @ p # after) =
          (tr @ [IsFile (name p), Stat (name p), Unlink (name p)], Inl (OtherException m))"
    using sweep_loop_append [OF assms(1), of "p # after"] by simp
  then show ?thesis
    by (simp add: janitor_sweep_def io_defs)
qed

theorem janitor_sweep_stops_at_unlink_error_witness:
  "janitor_sweep 5000
     (Inr [aged_file (str ''a.part'') 100,
           \<lparr> name = str ''locked.mp4'', is_file = Inr True, st_mtime = Inr 200,
             os_unlink = Inl (OtherException (str ''Permission denied'')) \<rparr>,
           aged_file (str ''c.mp4'') 300])
   = ([Glob, IsFile (str ''a.part''), Stat (str ''a.part''), Unlink (str ''a.part''),
       IsFile (str ''locked.mp4''), Stat (str ''locked.mp4''), Unlink (str ''locked.mp4'')],
      Inr ())"
proof -
  let ?p = "\<lparr> name = str ''locked.mp4'', is_file = Inr True, st_mtime = Inr (200 :: real),
             os_unlink = Inl (OtherException (str ''Permission denied'')) \<rparr>"
  have before: "sweep_loop 5000 [aged_file (str ''a.part'') 100] =
      ([IsFile (str ''a.part''), Stat (str ''a.part''), Unlink (str ''a.part'')], Inr ())"
    by (simp add: aged_file_def unlink_missing_ok_def io_defs)
  have old: "(200 :: real) < 5000 - 60 * 60"
    by simp
  show ?thesis
    using janitor_sweep_stops_at_unlink_error
      [OF before, of ?p 200 "str ''Permission denied''" "[aged_file (str ''c.mp4'') 300]"] old
    by simp
qed

subsection \<open>The handler\<close>

text \<open>
  C2. When the message carries an accepted URL, the progress message has been sent, the
  download returns a file and its size is read, and sending the file as a video raises,
  the handler sends the same file as a document, once, with the caption of the video
  extended by the words \<open>(sent as file)\<close> after the title: the events of the run are the
  ones listed, and \<open>ReplyDocument\<close> occurs once among them. When the document is sent the
  progress message is deleted; when it raises too, the progress message is edited to the
  warning sign, \<open>Error:\<close> and the text of that exception, as after a failed download.
  The title is the entry \<open>title\<close> of the metadata, or \<open>video\<close> without one; U+2705 is
  the check mark, U+1F30C the pictograph of the last line and U+26A0 U+FE0F the warning
  sign of the source's literals.
\<close>

theorem video_failure_document_fallback:
  assumes "extract_url text = Some url" and "supports_site (unicode_lower env) url"
    and "send_action env = Inr ()" and "reply_text env PROGRESS_TEXT = Inr ()"
    and "ytdlp_download env url = Inr (file_path, info)"
    and "getsize env file_path = Inr size_bytes"
    and "title = (case map_of info (str ''title'') of None \<Rightarrow> str ''video'' | Some t \<Rightarrow> t)"
    and "video = [0x2705] @ str '' '' @ title
                   @ [0x0A, 0x1F30C] @ str '' Thanks for using AuraLinkerBot!''"
    and "document = [0x2705] @ str '' '' @ title @ str '' (sent as file)''
                   @ [0x0A, 0x1F30C] @ str '' Thanks for using AuraLinkerBot!''"
    and "reply_video env file_path video = Inl e"
  shows "fst (handle_text env (Some text)) =
           [SendAction, ReplyText PROGRESS_TEXT, Download url, GetSize file_path,
            ReplyVideo file_path video, ReplyDocument file_path document]
           @ (case reply_document env file_path document of
                Inr _ \<Rightarrow> StatusDelete #
                  (case status_delete env of
                     Inr _ \<Rightarrow> []
                   | Inl e2 \<Rightarrow> [StatusEdit ([0x26A0, 0xFE0F] @ str '' Error: '' @ str_of e2)])
              | Inl e1 \<Rightarrow> [StatusEdit ([0x26A0, 0xFE0F] @ str '' Error: '' @ str_of e1)])
           @ fst (janitor_sweep (loop_time env) (glob env))
         \<and> filter (\<lambda>ev. \<exists>p c. ev = ReplyDocument p c) (fst (handle_text env (Some text))) =
             [ReplyDocument file_path document]
         \<and> sublist (str ''(sent as file)'') document
         \<and> document \<noteq> video"
proof -
  let ?sweep = "fst (janitor_sweep (loop_time env) (glob env))"
  have title: "title = title_of info"
    using assms(7) by (simp add: title_of_def)
  have video: "video = video_caption (title_of info)"
    using assms(8) title by (simp add: video_caption_def THANKS_LINE_def)
  have document: "document = document_caption (title_of info)"
    using assms(9) title by (simp add: document_caption_def THANKS_LINE_def)
  have failed: "reply_video env file_path (video_caption (title_of info)) = Inl e"
    using assms(10) video by simp
  have tr: "fst (handle_text env (Some text)) =
           [SendAction, ReplyText PROGRESS_TEXT, Download url, GetSize file_path,
            ReplyVideo file_path video, ReplyDocument file_path document]
           @ (case reply_document env file_path document of
                Inr _ \<Rightarrow> StatusDelete #
                  (case status_delete env of
                     Inr _ \<Rightarrow> []
                   | Inl e2 \<Rightarrow> [StatusEdit ([0x26A0, 0xFE0F] @ str '' Error: '' @ str_of e2)])
              | Inl e1 \<Rightarrow> [StatusEdit ([0x26A0, 0xFE0F] @ str '' Error: '' @ str_of e1)])
           @ ?sweep"
    unfolding video document
    by (simp add: handle_text_accepted [OF assms(1-4)] relay_video_fails [OF assms(5,6) failed]
        io_try_def io_call_def Let_def error_text_def split: sum.splits)
  have "filter (\<lambda>ev. \<exists>p c. ev = ReplyDocument p c) ?sweep = []"
    using janitor_sweep_no_reply(2) [of _ _ "loop_time env" "glob env"]
    by (auto simp: filter_empty_conv)
  then have once: "filter (\<lambda>ev. \<exists>p c. ev = ReplyDocument p c) (fst (handle_text env (Some text))) =
             [ReplyDocument file_path document]"
    unfolding tr by (simp split: sum.splits)
  have "document = ([0x2705] @ str '' '' @ title @ str '' '') @ str ''(sent as file)''
                   @ [0x0A, 0x1F30C] @ str '' Thanks for using AuraLinkerBot!''"
    using assms(9) by (simp add: str_def)
  then have says: "sublist (str ''(sent as file)'') document"
    by (simp only: sublist_appendI)
  have "length document = length video + length (str '' (sent as file)'')"
    using assms(8,9) by simp
  then have differ: "document \<noteq> video"
    by (auto simp: length_str)
  from tr once says differ show ?thesis by blast
qed

theorem video_failure_document_fallback_witness:
  "fst (handle_text
          (calm_env\<lparr>reply_video :=
             \<lambda>p c. Inl (OtherException (str ''Request Entity Too Large''))\<rparr>)
          (Some (str ''https://youtu.be/abc123'')))
   = [SendAction, ReplyText PROGRESS_TEXT, Download (str ''https://youtu.be/abc123''),
      GetSize (str ''/tmp/downloads/clip.mp4''),
      ReplyVideo (str ''/tmp/downloads/clip.mp4'')
        ([0x2705] @ str '' clip'' @ [0x0A, 0x1F30C] @ str '' Thanks for using AuraLinkerBot!''),
      ReplyDocument (str ''/tmp/downloads/clip.mp4'')
        ([0x2705] @ str '' clip (sent as file)'' @ [0x0A, 0x1F30C]
          @ str '' Thanks for using AuraLinkerBot!''),
      StatusDelete, Glob]"
proof -
  let ?env = "calm_env\<lparr>reply_video :=
             \<lambda>p c. Inl (OtherException (str ''Request Entity Too Large''))\<rparr>"
  have url: "extract_url (str ''https://youtu.be/abc123'') = Some (str ''https://youtu.be/abc123'')"
    by (simp add: text_eval)
  have ok: "supports_site ul (str ''https://youtu.be/abc123'')" for ul
    by (simp add: text_eval)
  have "fst (janitor_sweep (loop_time ?env) (glob ?env)) = [Glob]"
    by (simp add: calm_env_def janitor_sweep_def io_defs)
  then show ?thesis
    using video_failure_document_fallback
      [OF url ok, where env = ?env and file_path = "str ''/tmp/downloads/clip.mp4''"
        and info = "[(str ''title'', str ''clip'')]" and size_bytes = 1048576
        and e = "OtherException (str ''Request Entity Too Large'')"
        and title = "str ''clip''"
        and video = "[0x2705] @ str '' '' @ str ''clip''
                   @ [0x0A, 0x1F30C] @ str '' Thanks for using AuraLinkerBot!''"
        and document = "[0x2705] @ str '' '' @ str ''clip'' @ str '' (sent as file)''
                   @ [0x0A, 0x1F30C] @ str '' Thanks for using AuraLinkerBot!''"]
    by (simp add: calm_env_def str_def)
qed

text \<open>
  C3. When the message carries an accepted URL, the progress message has been sent and
  the download raises \<open>e\<close>, the handler edits the progress message to the warning sign
  (U+26A0 U+FE0F), \<open>Error:\<close> and \<open>str(e)\<close>, a text that contains \<open>str(e)\<close>; no file is
  sent to the chat; and the sweep runs after that (its events, which begin with the
  directory listing, end the run).
\<close>

theorem fetch_failure_reports_error:
  assumes "extract_url text = Some url" and "supports_site (unicode_lower env) url"
    and "send_action env = Inr ()" and "reply_text env PROGRESS_TEXT = Inr ()"
    and "ytdlp_download env url = Inl e"
  shows "fst (handle_text env (Some text)) =
           [SendAction, ReplyText PROGRESS_TEXT, Download url,
            StatusEdit ([0x26A0, 0xFE0F] @ str '' Error: '' @ str_of e)]
           @ fst (janitor_sweep (loop_time env) (glob env))
         \<and> sublist (str_of e) ([0x26A0, 0xFE0F] @ str '' Error: '' @ str_of e)
         \<and> (\<forall>p c. ReplyVideo p c \<notin> set (fst (handle_text env (Some text)))
                  \<and> ReplyDocument p c \<notin> set (fst (handle_text env (Some text))))
         \<and> (\<exists>tr. fst (janitor_sweep (loop_time env) (glob env)) = Glob # tr)"
proof -
  let ?sweep = "fst (janitor_sweep (loop_time env) (glob env))"
  have tr: "fst (handle_text env (Some text)) =
           [SendAction, ReplyText PROGRESS_TEXT, Download url,
            StatusEdit ([0x26A0, 0xFE0F] @ str '' Error: '' @ str_of e)] @ ?sweep"
    by (simp add: handle_text_accepted [OF assms(1-4)] relay_download_fails [OF assms(5)]
        io_try_def io_call_def Let_def error_text_def)
  have "\<forall>p c. ReplyVideo p c \<notin> set (fst (handle_text env (Some text)))
                  \<and> ReplyDocument p c \<notin> set (fst (handle_text env (Some text)))"
    unfolding tr by (simp add: janitor_sweep_no_reply)
  moreover have "sublist (str_of e) ([0x26A0, 0xFE0F] @ str '' Error: '' @ str_of e)"
  proof -
    have "[0x26A0, 0xFE0F] @ str '' Error: '' @ str_of e =
        ([0x26A0, 0xFE0F] @ str '' Error: '') @ str_of e"
      by simp
    then show ?thesis by (simp only: sublist_append_leftI)
  qed
  ultimately show ?thesis
    using tr janitor_sweep_Glob by blast
qed

theorem fetch_failure_reports_error_witness:
  "fst (handle_text
          (calm_env\<lparr>ytdlp_download := \<lambda>url. Inl (OtherException (str ''network timeout''))\<rparr>)
          (Some (str ''watch this https://youtu.be/abc123 nice'')))
   = [SendAction, ReplyText PROGRESS_TEXT, Download (str ''https://youtu.be/abc123''),
      StatusEdit ([0x26A0, 0xFE0F] @ str '' Error: network timeout''), Glob]
   \<and> sublist (str ''network timeout'') ([0x26A0, 0xFE0F] @ str '' Error: network timeout'')"
proof -
  let ?env = "calm_env\<lparr>ytdlp_download := \<lambda>url. Inl (OtherException (str ''network timeout''))\<rparr>"
  have url: "extract_url (str ''watch this https://youtu.be/abc123 nice'')
             = Some (str ''https://youtu.be/abc123'')"
    by (simp add: text_eval)
  have ok: "supports_site ul (str ''https://youtu.be/abc123'')" for ul
    by (simp add: text_eval)
  have "fst (janitor_sweep (loop_time ?env) (glob ?env)) = [Glob]"
    by (simp add: calm_env_def janitor_sweep_def io_defs)
  then show ?thesis
    using fetch_failure_reports_error
      [OF url ok, where env = ?env and e = "OtherException (str ''network timeout'')"]
    by (simp add: calm_env_def str_def)
qed

text \<open>
  C5. When no URL is extracted from the message text, or the extracted URL is not on the
  allow-list, the run of the handler is the one reply with the rejection text and nothing
  else: no progress message, no download, no other call.
\<close>

theorem rejection_is_only_reply:
  assumes "extract_url text = None
           \<or> (\<exists>url. extract_url text = Some url \<and> \<not> supports_site (unicode_lower env) url)"
  shows "handle_text env (Some text) = ([ReplyText REJECTION_TEXT], reply_text env REJECTION_TEXT)"
  using assms by (auto simp: handle_text_def io_call_def)

theorem rejection_is_only_reply_witness:
  "handle_text calm_env (Some (str ''hello world'')) = ([ReplyText REJECTION_TEXT], Inr ())
   \<and> handle_text calm_env (Some (str ''https://example.com/video''))
       = ([ReplyText REJECTION_TEXT], Inr ())"
proof -
  have a: "extract_url (str ''hello world'') = None"
    by (simp add: text_eval)
  have b: "extract_url (str ''https://example.com/video'') = Some (str ''https://example.com/video'')"
    by (simp add: text_eval)
  have c: "\<not> supports_site ul (str ''https://example.com/video'')" for ul
    by (simp add: text_eval)
  have "reply_text calm_env REJECTION_TEXT = Inr ()"
    by (simp add: calm_env_def)
  then show ?thesis
    using rejection_is_only_reply [of "str ''hello world''" calm_env]
      rejection_is_only_reply [of "str ''https://example.com/video''" calm_env] a b c
    by simp
qed

text \<open>
  C6, as stated: the sweep runs at the end of the handling of every text message, a
  rejected one included. It does not: the rejection branch returns before the
  \<open>try\<close> statement whose \<open>finally\<close> block holds the sweep, so that for the message
  \<open>hello world\<close> the directory is never listed.
\<close>

theorem rejected_message_no_sweep_counterexample:
  "Glob \<notin> set (fst (handle_text calm_env (Some (str ''hello world''))))"
proof -
  have "extract_url (str ''hello world'') = None" by (simp add: text_eval)
  then show ?thesis by (simp add: handle_text_def io_call_def)
qed

text \<open>
  C6, amended. When the message carries an accepted URL and the presence indicator and
  the progress message have been sent, the sweep runs once, at the end of the handling,
  whatever the download and the sends did: the events of the run are events without a
  directory listing, followed by the events of the sweep.
\<close>

theorem sweep_after_accepted_message:
  assumes "extract_url text = Some url" and "supports_site (unicode_lower env) url"
    and "send_action env = Inr ()" and "reply_text env PROGRESS_TEXT = Inr ()"
  shows "\<exists>tr rest. fst (handle_text env (Some text)) = tr @ Glob # rest
           \<and> Glob \<notin> set tr
           \<and> Glob # rest = fst (janitor_sweep (loop_time env) (glob env))"
proof -
  let ?body = "io_try (relay env url)
       (\<lambda>e. io_call (StatusEdit (error_text e)) (status_edit_text env (error_text e)))"
  obtain rest where rest: "fst (janitor_sweep (loop_time env) (glob env)) = Glob # rest"
    using janitor_sweep_Glob by blast
  have "fst (handle_text env (Some text)) = ([SendAction, ReplyText PROGRESS_TEXT] @ fst ?body) @ Glob # rest"
    by (simp add: handle_text_accepted [OF assms] Let_def rest)
  moreover have "Glob \<notin> set ([SendAction, ReplyText PROGRESS_TEXT] @ fst ?body)"
    using io_try_no_fs [of Glob env url] by auto
  ultimately show ?thesis using rest by metis
qed

theorem sweep_after_accepted_message_witness:
  "\<exists>tr rest. fst (handle_text calm_env (Some (str ''https://www.tiktok.com/@a/video/1'')))
        = tr @ Glob # rest
      \<and> Glob \<notin> set tr
      \<and> Glob # rest = fst (janitor_sweep (loop_time calm_env) (glob calm_env))"
proof -
  have url: "extract_url (str ''https://www.tiktok.com/@a/video/1'')
             = Some (str ''https://www.tiktok.com/@a/video/1'')"
    by (simp add: text_eval)
  have ok: "supports_site ul (str ''https://www.tiktok.com/@a/video/1'')" for ul
    by (simp add: text_eval)
  have "send_action calm_env = Inr ()" "reply_text calm_env PROGRESS_TEXT = Inr ()"
    by (simp_all add: calm_env_def)
  then show ?thesis
    by (rule sweep_after_accepted_message [OF url ok])
qed

subsection \<open>Allow-list filter\<close>

text \<open>
  C4. For every URL string, \<open>supports_site\<close> returns true if and only if the lower-cased
  URL contains one of the five allow-listed host strings somewhere (as a contiguous
  substring: some text before it, the host, some text after it), with no parsing of the
  URL's host part; in particular the text \<open>check http://evil.com/youtube.com/x\<close> passes.
\<close>

theorem supports_site_substring:
  "(supports_site ul url \<longleftrightarrow>
      (\<exists>host pre suf.
          host \<in> {str ''youtube.com'', str ''youtu.be'', str ''tiktok.com'',
                   str ''facebook.com'', str ''fb.watch''}
          \<and> lower ul url = pre @ host @ suf))
   \<and> supports_site ul (str ''check http://evil.com/youtube.com/x'')"
proof
  have hosts: "set ALLOWED_HOSTS =
      {str ''youtube.com'', str ''youtu.be'', str ''tiktok.com'',
       str ''facebook.com'', str ''fb.watch''}"
    by (simp only: ALLOWED_HOSTS_def list.set)
  have "supports_site ul url \<longleftrightarrow>
      (\<exists>host\<in>set ALLOWED_HOSTS. \<exists>pre suf. lower ul url = pre @ host @ suf)"
    by (simp only: supports_site_def list_ex_iff sublist_def)
  also have "\<dots> \<longleftrightarrow>
      (\<exists>host pre suf. host \<in> set ALLOWED_HOSTS \<and> lower ul url = pre @ host @ suf)"
    by (rule bex_triple)
  finally show "supports_site ul url \<longleftrightarrow>
      (\<exists>host pre suf.
          host \<in> {str ''youtube.com'', str ''youtu.be'', str ''tiktok.com'',
                   str ''facebook.com'', str ''fb.watch''}
          \<and> lower ul url = pre @ host @ suf)"
    by (simp only: hosts)
  show "supports_site ul (str ''check http://evil.com/youtube.com/x'')"
    by (simp add: text_eval)
qed

subsection \<open>URL extraction\<close>

text \<open>
  C7, as stated: whenever the text contains \<open>http://\<close> or \<open>https://\<close>, in any letter
  case, extraction returns the first such place, extended to the next whitespace. It
  does not, for two reasons. The pattern asks for at least one more character after the
  two slashes, so the text \<open>see http:// now\<close>, which contains \<open>http://\<close>, yields no URL.
  And under \<open>re.IGNORECASE\<close> the \<open>s\<close> of the pattern also matches the long s (U+017F),
  so that in \<open>see http\<close> U+017F \<open>://a.b then https://youtu.be/ok\<close>, whose first
  \<open>https://\<close> is the one before \<open>youtu.be\<close>, extraction returns the part before it that
  is written with the long s.
\<close>

theorem extract_url_bare_scheme_counterexample:
  "sublist (str ''http://'') (str ''see http:// now'')
   \<and> extract_url (str ''see http:// now'') = None
   \<and> extract_url (str ''see http'' @ [0x17F] @ str ''://a.b then https://youtu.be/ok'')
       = Some (str ''http'' @ [0x17F] @ str ''://a.b'')"
  by (simp add: text_eval)

text \<open>
  C7, amended. Split the text as \<open>pre @ sch @ body @ rest\<close>, where \<open>sch\<close> is \<open>http://\<close>
  or \<open>https://\<close> with its letters in either case and possibly the long s (U+017F) for
  the \<open>s\<close>, \<open>body\<close> is not empty and has no whitespace, \<open>rest\<close> is empty or begins with
  whitespace, and no URL begins at an earlier index, inside \<open>pre\<close>. Then extraction
  returns \<open>sch @ body\<close>: the first place where such a scheme is followed by a character
  that is not whitespace, extended to the next whitespace or to the end of the text.
  Every text in which a URL begins at some index has such a split
  (\<open>first_url_start_split\<close>).
\<close>

theorem extract_url_first:
  assumes "text = pre @ sch @ body @ rest"
    and "fold_scheme sch = str ''http://'' \<or> fold_scheme sch = str ''https://''"
    and "body \<noteq> []" and "\<forall>c\<in>set body. \<not> is_space c"
    and "case rest of [] \<Rightarrow> True | c # _ \<Rightarrow> is_space c"
    and "\<forall>i<length pre. \<not> url_start (drop i text)"
  shows "extract_url text = Some (sch @ body)"
proof -
  have "url_at (sch @ body @ rest) = Some (sch @ body)"
    using assms(2-5) by (rule url_at_here)
  then have "re_search URL_REGEX (sch @ body @ rest) = Some (sch @ body)"
    by (rule re_search_at)
  moreover have "re_search URL_REGEX (pre @ sch @ body @ rest) = re_search URL_REGEX (sch @ body @ rest)"
    using assms(6) unfolding assms(1) by (rule re_search_skip)
  ultimately show ?thesis
    by (simp add: extract_url_search assms(1))
qed

theorem extract_url_first_witness:
  "extract_url (str ''watch this https://youtu.be/abc123 nice'') = Some (str ''https://youtu.be/abc123'')"
proof -
  have first: "\<forall>i<length (str ''watch this '').
      \<not> url_start (drop i (str ''watch this https://youtu.be/abc123 nice''))"
    by (simp add: text_eval All_less_Suc)
  have sch: "fold_scheme (str ''https://'') = str ''http://''
             \<or> fold_scheme (str ''https://'') = str ''https://''"
    by (simp add: text_eval)
  have body: "\<forall>c\<in>set (str ''youtu.be/abc123''). \<not> is_space c"
    by (simp add: text_eval)
  have rest: "case str '' nice'' of [] \<Rightarrow> True | c # _ \<Rightarrow> is_space c"
    by (simp add: text_eval)
  have "extract_url (str ''watch this https://youtu.be/abc123 nice'')
        = Some (str ''https://'' @ str ''youtu.be/abc123'')"
    by (rule extract_url_first [where pre = "str ''watch this ''" and rest = "str '' nice''",
          OF _ sch _ body rest first])
      (simp_all add: str_def)
  then show ?thesis by (simp add: str_def)
qed

text \<open>
  C8, as stated: a text that contains neither \<open>http://\<close> nor \<open>https://\<close>, in any letter
  case, yields no URL. It does for \<open>http\<close> U+017F \<open>://youtu.be/x\<close>: the text has no
  capital letter and contains neither scheme (and \<open>str.lower\<close> leaves the long s as it
  is), yet under \<open>re.IGNORECASE\<close> the \<open>s\<close> of the pattern matches the long s, and the
  whole text is returned.
\<close>

theorem extract_url_long_s_counterexample:
  "\<not> sublist (str ''http://'') (map ascii_lower (str ''http'' @ [0x17F] @ str ''://youtu.be/x''))
   \<and> \<not> sublist (str ''https://'') (map ascii_lower (str ''http'' @ [0x17F] @ str ''://youtu.be/x''))
   \<and> extract_url (str ''http'' @ [0x17F] @ str ''://youtu.be/x'')
       = Some (str ''http'' @ [0x17F] @ str ''://youtu.be/x'')"
  by (simp add: text_eval)

text \<open>
  C8, amended. When neither \<open>http://\<close> nor \<open>https://\<close> occurs in the text, with the
  letters in either case and with the long s (U+017F) counted as an \<open>s\<close>, extraction
  returns no URL; and it returns none for a text made of whitespace only, the empty
  text included.
\<close>

theorem extract_url_none:
  "(\<not> sublist (str ''http://'') (fold_scheme text) \<and> \<not> sublist (str ''https://'') (fold_scheme text)
      \<longrightarrow> extract_url text = None)
   \<and> ((\<forall>c\<in>set text. is_space c) \<longrightarrow> extract_url text = None)"
proof (intro conjI impI)
  assume "\<not> sublist (str ''http://'') (fold_scheme text) \<and> \<not> sublist (str ''https://'') (fold_scheme text)"
  then show "extract_url text = None"
    by (simp add: extract_url_search re_search_absent)
next
  assume "\<forall>c\<in>set text. is_space c"
  then have "re_search URL_REGEX ([] @ text) = re_search URL_REGEX []"
    by (rule re_search_append_space)
  then show "extract_url text = None"
    by (simp add: extract_url_search re_search_Nil)
qed

theorem extract_url_none_witness:
  "\<not> sublist (str ''http://'') (fold_scheme (str ''hello world''))
   \<and> \<not> sublist (str ''https://'') (fold_scheme (str ''hello world''))
   \<and> extract_url (str ''hello world'') = None
   \<and> list_all is_space [0x20, 0x09, 0x0A, 0x3000]
   \<and> extract_url [0x20, 0x09, 0x0A, 0x3000] = None
   \<and> extract_url [] = None"
proof -
  have a: "\<not> sublist (str ''http://'') (fold_scheme (str ''hello world''))
           \<and> \<not> sublist (str ''https://'') (fold_scheme (str ''hello world''))"
    by (simp add: text_eval)
  have b: "list_all is_space [0x20, 0x09, 0x0A, 0x3000]"
    by (simp add: text_eval)
  then have b': "\<forall>c\<in>set [0x20, 0x09, 0x0A, 0x3000]. is_space c"
    by (simp only: list_all_iff)
  have c: "\<forall>c\<in>set ([] :: pystr). is_space c"
    by simp
  show ?thesis
    using a b b' extract_url_none [of "str ''hello world''"]
      extract_url_none [of "[0x20, 0x09, 0x0A, 0x3000]"] extract_url_none [of "[]"] c
    by blast
qed

text \<open>
  C9, as stated: a returned URL begins with \<open>http://\<close> or \<open>https://\<close> up to letter
  case. The URL returned for \<open>http\<close> U+017F \<open>://youtu.be/x\<close> is that text itself, which
  begins with neither: its fifth character is the long s, which no change of letter
  case by \<open>str.lower\<close> turns into \<open>s\<close>.
\<close>

theorem extract_url_long_s_prefix_counterexample:
  "extract_url (str ''http'' @ [0x17F] @ str ''://youtu.be/x'')
     = Some (str ''http'' @ [0x17F] @ str ''://youtu.be/x'')
   \<and> \<not> prefix (str ''http://'') (map ascii_lower (str ''http'' @ [0x17F] @ str ''://youtu.be/x''))
   \<and> \<not> prefix (str ''https://'') (map ascii_lower (str ''http'' @ [0x17F] @ str ''://youtu.be/x''))"
  by (simp add: text_eval)

text \<open>
  C9, amended. A URL that extraction returns is a contiguous part of the text, begins
  with \<open>http://\<close> or \<open>https://\<close> up to the case of the letters and with the long s
  (U+017F) allowed for the \<open>s\<close>, has at least one character after the two slashes, and
  contains no whitespace.
\<close>

theorem extract_url_shape:
  assumes "extract_url text = Some url"
  shows "\<exists>sch body. url = sch @ body
           \<and> (fold_scheme sch = str ''http://'' \<or> fold_scheme sch = str ''https://'')
           \<and> body \<noteq> []
           \<and> (\<forall>c\<in>set url. \<not> is_space c)
           \<and> sublist url text"
proof -
  have "re_search URL_REGEX text = Some url"
    using assms by (simp add: extract_url_search)
  then obtain pre t where t: "text = pre @ t" "url_at t = Some url"
    using re_search_found by blast
  have "prefix url t" using t(2) by (rule url_at_prefix)
  then have sub: "sublist url text"
    using t(1) by (auto simp: prefix_def sublist_def)
  have nosp: "\<forall>c\<in>set (take k t). \<not> is_space c"
    if "prefix p (fold_scheme t)" "length p = k" "\<forall>c\<in>set p. \<not> is_space c" for k p
  proof
    fix c assume c: "c \<in> set (take k t)"
    have "fold_scheme (take k t) = p"
      using that(1,2) by (auto simp: prefix_def fold_scheme_def take_map [symmetric])
    then have "scheme_fold c \<in> set p" using c by (auto simp: fold_scheme_def)
    then show "\<not> is_space c"
      using that(3) is_space_scheme_fold [of c] by auto
  qed
  have run: "\<forall>c\<in>set (nonspace_run u). \<not> is_space c" for u
    by (auto simp: nonspace_run_def dest: set_takeWhileD)
  consider (s) "prefix (str ''https://'') (fold_scheme t)" "nonspace_run (drop 8 t) \<noteq> []"
      "url = take 8 t @ nonspace_run (drop 8 t)"
    | (p) "prefix (str ''http://'') (fold_scheme t)" "nonspace_run (drop 7 t) \<noteq> []"
      "url = take 7 t @ nonspace_run (drop 7 t)"
    using t(2) by (auto simp: url_at_def split: if_splits)
  then show ?thesis
  proof cases
    case s
    have "fold_scheme (take 8 t) = str ''https://''"
      using s(1) by (auto simp: prefix_def fold_scheme_def length_str take_map [symmetric])
    moreover have "\<forall>c\<in>set (take 8 t). \<not> is_space c"
      by (rule nosp [OF s(1) _ scheme_nonspace(2)]) (simp add: length_str)
    then have "\<forall>c\<in>set url. \<not> is_space c"
      using run s(3) by auto
    ultimately show ?thesis using s sub by blast
  next
    case p
    have "fold_scheme (take 7 t) = str ''http://''"
      using p(1) by (auto simp: prefix_def fold_scheme_def length_str take_map [symmetric])
    moreover have "\<forall>c\<in>set (take 7 t). \<not> is_space c"
      by (rule nosp [OF p(1) _ scheme_nonspace(1)]) (simp add: length_str)
    then have "\<forall>c\<in>set url. \<not> is_space c"
      using run p(3) by auto
    ultimately show ?thesis using p sub by blast
  qed
qed

theorem extract_url_shape_witness:
  "extract_url (str ''see HTTP'' @ [0x17F] @ str ''://Youtu.be/x and more'')
     = Some (str ''HTTP'' @ [0x17F] @ str ''://Youtu.be/x'')
   \<and> (\<exists>sch body. str ''HTTP'' @ [0x17F] @ str ''://Youtu.be/x'' = sch @ body
           \<and> (fold_scheme sch = str ''http://'' \<or> fold_scheme sch = str ''https://'')
           \<and> body \<noteq> []
           \<and> (\<forall>c\<in>set (str ''HTTP'' @ [0x17F] @ str ''://Youtu.be/x''). \<not> is_space c)
           \<and> sublist (str ''HTTP'' @ [0x17F] @ str ''://Youtu.be/x'')
                (str ''see HTTP'' @ [0x17F] @ str ''://Youtu.be/x and more''))"
proof -
  have a: "extract_url (str ''see HTTP'' @ [0x17F] @ str ''://Youtu.be/x and more'')
     = Some (str ''HTTP'' @ [0x17F] @ str ''://Youtu.be/x'')"
    by (simp add: text_eval)
  show ?thesis using a extract_url_shape [OF a] by blast
qed

end
